theory Spec2Isabelle
  imports Main "HOL-Library.Word" "HOL-Library.Multiset"
begin

unbundle bit_operations_syntax

section \<open>Calls on the underlying mutexes\<close>

text \<open>
  The underlying mutex type is a template parameter (\<^verbatim>\<open>SharedMutex\<close>,
  \<^verbatim>\<open>SharedTimedMutex\<close>); the locks of this repository only forward calls to the
  entries of \<^verbatim>\<open>_locks\<close>. The behaviour of one lock operation is therefore the
  sequence of calls it issues, each on one physical slot of the table. A blocking call is
  recorded when it is issued; waiting for another thread is not part of the model.
\<close>

datatype event = Lock nat | Unlock nat | LockShared nat | UnlockShared nat

fun slot :: "event \<Rightarrow> nat" where
  "slot (Lock s) = s"
| "slot (Unlock s) = s"
| "slot (LockShared s) = s"
| "slot (UnlockShared s) = s"

text \<open>
  A per-slot acquisition counter, as an instrumented mutex would keep it: an acquisition
  of slot \<open>s\<close> (exclusive or shared) adds one, a release takes one away. The counter is an
  \<open>int\<close>, so that a release without an acquisition would show as a negative value.
\<close>

fun delta :: "event \<Rightarrow> nat \<Rightarrow> int" where
  "delta (Lock s) x = (if s = x then 1 else 0)"
| "delta (Unlock s) x = (if s = x then - 1 else 0)"
| "delta (LockShared s) x = (if s = x then 1 else 0)"
| "delta (UnlockShared s) x = (if s = x then - 1 else 0)"

definition held :: "event list \<Rightarrow> nat \<Rightarrow> int" where
  "held es x = sum_list (map (\<lambda>e. delta e x) es)"

section \<open>The keyed lock (dynlock\_ht.hpp)\<close>

text \<open>
  The template parameters \<^verbatim>\<open>N\<close>, \<open>K\<close>, \<open>R\<close>, \<open>W\<close> and the two standard hash
  functors used by \<^verbatim>\<open>h\<close>: \<open>ih\<close> is \<^verbatim>\<open>std::hash<size_t>\<close>, \<open>th\<close> is
  \<^verbatim>\<open>std::hash<T>\<close> for the key type. Both hashes return a \<^verbatim>\<open>size_t\<close>, a 64-bit
  word. The counters \<open>i\<close> of the source only count from \<open>0\<close> up to \<open>K\<close> and are
  natural numbers here. A table needs \<open>0 < N\<close>: an array of no elements is ill-formed.
\<close>

record 'k config =
  N :: nat
  K :: nat
  R :: nat
  W :: nat
  ih :: "nat \<Rightarrow> 64 word"
  th :: "'k \<Rightarrow> 64 word"

definition h :: "'k config \<Rightarrow> nat \<Rightarrow> 'k \<Rightarrow> 64 word" where
  "h c i key = ih c i XOR th c key"

text \<open>\<^verbatim>\<open>get_lock\<close> returns \<^verbatim>\<open>_locks[h(i, key) % N]\<close>; the model returns the index.\<close>

definition get_lock :: "'k config \<Rightarrow> nat \<Rightarrow> 'k \<Rightarrow> nat" where
  "get_lock c i key = unat (h c i key) mod N c"

definition array_of_K :: "'k config \<Rightarrow> nat list" where
  "array_of_K c = [0..<K c]"

text \<open>
  \<^verbatim>\<open>std::vector::resize(k)\<close> cuts the vector to its first \<open>k\<close> elements, or appends
  value-initialised elements (zeros) up to length \<open>k\<close>.
\<close>

definition resize :: "nat \<Rightarrow> nat list \<Rightarrow> nat list" where
  "resize k xs = take k xs @ replicate (k - length xs) 0"

text \<open>
  \<^verbatim>\<open>std::random_shuffle\<close> reorders the vector using the hidden state of the global
  generator. The reordering done by one call is the parameter \<open>sh\<close> of that call; what
  the library promises of it is that the result is a rearrangement of the input.
\<close>

definition rearranges :: "(nat list \<Rightarrow> nat list) \<Rightarrow> nat list \<Rightarrow> bool" where
  "rearranges sh xs \<longleftrightarrow> mset (sh xs) = mset xs"

definition hash_choices :: "'k config \<Rightarrow> (nat list \<Rightarrow> nat list) \<Rightarrow> nat \<Rightarrow> nat list" where
  "hash_choices c sh k =
     (let all = array_of_K c;
          choices = sh all;
          choices = resize k choices
      in sort choices)"

text \<open>
  The four operations of the general template. Each returns the calls it issues; the two
  acquisitions return the token first. \<^verbatim>\<open>lock_shared\<close> is written with
  \<^verbatim>\<open>hash_choices(W)\<close> in the source.
\<close>

definition lock :: "'k config \<Rightarrow> (nat list \<Rightarrow> nat list) \<Rightarrow> 'k \<Rightarrow> nat list \<times> event list" where
  "lock c sh key =
     (let tok = hash_choices c sh (W c)
      in (tok, map (\<lambda>i. Lock (get_lock c i key)) tok))"

definition unlock :: "'k config \<Rightarrow> 'k \<Rightarrow> nat list \<Rightarrow> event list" where
  "unlock c key tok = map (\<lambda>i. Unlock (get_lock c i key)) tok"

definition lock_shared :: "'k config \<Rightarrow> (nat list \<Rightarrow> nat list) \<Rightarrow> 'k \<Rightarrow> nat list \<times> event list" where
  "lock_shared c sh key =
     (let tok = hash_choices c sh (W c)
      in (tok, map (\<lambda>i. LockShared (get_lock c i key)) tok))"

definition unlock_shared :: "'k config \<Rightarrow> 'k \<Rightarrow> nat list \<Rightarrow> event list" where
  "unlock_shared c key tok = map (\<lambda>i. UnlockShared (get_lock c i key)) tok"

subsection \<open>The specialisation for \<open>R = 1\<close>, \<open>W = K\<close>\<close>

text \<open>
  \<^verbatim>\<open>dyn_lock<SharedMutex, N, K, 1, K>\<close> declares the same \<^verbatim>\<open>h\<close> and
  \<^verbatim>\<open>get_lock\<close> again; its token is one \<^verbatim>\<open>size_t\<close>. The draw
  \<^verbatim>\<open>dist(generator)\<close> of \<^verbatim>\<open>lock_shared\<close> is the parameter \<open>d\<close>; the
  distribution is over \<open>0 .. K - 1\<close>.
\<close>

definition lock_1K :: "'k config \<Rightarrow> 'k \<Rightarrow> nat \<times> event list" where
  "lock_1K c key = (0, map (\<lambda>i. Lock (get_lock c i key)) [0..<K c])"

definition unlock_1K :: "'k config \<Rightarrow> 'k \<Rightarrow> nat \<Rightarrow> event list" where
  "unlock_1K c key tok = map (\<lambda>i. Unlock (get_lock c i key)) [0..<K c]"

definition lock_shared_1K :: "'k config \<Rightarrow> nat \<Rightarrow> 'k \<Rightarrow> nat \<times> event list" where
  "lock_shared_1K c d key = (let i = d in (i, [LockShared (get_lock c i key)]))"


text \<open>
  The handle \<^verbatim>\<open>shared_mutex\<close> keeps the token of \<^verbatim>\<open>lock\<close> in \<^verbatim>\<open>_tok\<close> and
  hands it to \<^verbatim>\<open>unlock\<close>. One such cycle issues the calls of the acquisition and then
  those of the release; a run of cycles issues them one cycle after the other. Each cycle
  has its own shuffle and its own key.
\<close>

datatype mode = Exclusive | Shared

fun cycle :: "'k config \<Rightarrow> mode \<times> (nat list \<Rightarrow> nat list) \<times> 'k \<Rightarrow> event list" where
  "cycle c (Exclusive, sh, key) = (let (tok, es) = lock c sh key in es @ unlock c key tok)"
| "cycle c (Shared, sh, key) = (let (tok, es) = lock_shared c sh key in es @ unlock_shared c key tok)"

definition cycles :: "'k config \<Rightarrow> (mode \<times> (nat list \<Rightarrow> nat list) \<times> 'k) list \<Rightarrow> event list" where
  "cycles c xs = concat (map (cycle c) xs)"

section \<open>The lock of one resource (shared\_timed\_mutex)\<close>

text \<open>
  The table of this variant has \<^verbatim>\<open>K() = 1 << bits\<close> underlying mutexes and the handle
  indexes it directly. An index outside the array is undefined behaviour in the source;
  the model stops there with \<open>OutOfBounds\<close>.

  One underlying mutex is modelled by what decides \<^verbatim>\<open>try_lock\<close>: whether it is held
  exclusively and by how many readers. The table also records the calls that succeeded,
  in the order they were issued.
\<close>

datatype error = OutOfBounds

record smutex =
  excl :: bool
  shared :: nat

definition free :: "smutex \<Rightarrow> bool" where
  "free m \<longleftrightarrow> \<not> excl m \<and> shared m = 0"

definition m_lock :: "smutex \<Rightarrow> smutex" where
  "m_lock m = m\<lparr>excl := True\<rparr>"

definition m_unlock :: "smutex \<Rightarrow> smutex" where
  "m_unlock m = m\<lparr>excl := False\<rparr>"



record dyn_lock =
  locks :: "smutex list"
  calls :: "event list"

definition stm_K :: "nat \<Rightarrow> nat" where
  "stm_K bits = 2 ^ bits"

text \<open>\<^verbatim>\<open>_dlock._locks[i].op()\<close> for the four blocking or releasing operations.\<close>

definition at_index :: "nat \<Rightarrow> (smutex \<Rightarrow> smutex) \<Rightarrow> event \<Rightarrow> dyn_lock \<Rightarrow> error + dyn_lock" where
  "at_index i f e d =
     (if i < length (locks d)
      then Inr (d\<lparr>locks := (locks d)[i := f (locks d ! i)], calls := calls d @ [e]\<rparr>)
      else Inl OutOfBounds)"

definition mutex_lock :: "nat \<Rightarrow> dyn_lock \<Rightarrow> error + dyn_lock" where
  "mutex_lock i d = at_index i m_lock (Lock i) d"

definition mutex_unlock :: "nat \<Rightarrow> dyn_lock \<Rightarrow> error + dyn_lock" where
  "mutex_unlock i d = at_index i m_unlock (Unlock i) d"



text \<open>
  \<^verbatim>\<open>_locks[i].try_lock()\<close> succeeds when the mutex is free. Whether
  \<^verbatim>\<open>_locks[i].try_lock_until(atime)\<close> succeeds depends on the clock and on the other
  threads: \<open>intime i\<close> tells whether mutex \<open>i\<close> is obtained before the deadline.
\<close>

definition mutex_try_lock :: "nat \<Rightarrow> dyn_lock \<Rightarrow> error + bool \<times> dyn_lock" where
  "mutex_try_lock i d =
     (if i < length (locks d)
      then (if free (locks d ! i)
            then Inr (True, d\<lparr>locks := (locks d)[i := m_lock (locks d ! i)],
                              calls := calls d @ [Lock i]\<rparr>)
            else Inr (False, d))
      else Inl OutOfBounds)"

definition mutex_try_lock_until :: "(nat \<Rightarrow> bool) \<Rightarrow> nat \<Rightarrow> dyn_lock \<Rightarrow> error + bool \<times> dyn_lock" where
  "mutex_try_lock_until intime i d =
     (if i < length (locks d)
      then (if intime i
            then Inr (True, d\<lparr>locks := (locks d)[i := m_lock (locks d ! i)],
                              calls := calls d @ [Lock i]\<rparr>)
            else Inr (False, d))
      else Inl OutOfBounds)"

text \<open>The loop \<^verbatim>\<open>for (size_t i = 0; i < K(); ++i) _dlock._locks[i].op();\<close>\<close>

function for_K :: "(nat \<Rightarrow> dyn_lock \<Rightarrow> error + dyn_lock) \<Rightarrow> nat \<Rightarrow> nat \<Rightarrow> dyn_lock \<Rightarrow> error + dyn_lock" where
  "for_K body k i d =
     (if i < k
      then (case body i d of Inl e \<Rightarrow> Inl e | Inr d' \<Rightarrow> for_K body k (i + 1) d')
      else Inr d)"
  by pat_completeness auto
termination
  by (relation "measure (\<lambda>(body, k, i, d). k - i)") auto

definition stm_lock :: "nat \<Rightarrow> dyn_lock \<Rightarrow> error + dyn_lock" where
  "stm_lock bits d = for_K mutex_lock (stm_K bits) 0 d"

definition stm_unlock :: "nat \<Rightarrow> dyn_lock \<Rightarrow> error + dyn_lock" where
  "stm_unlock bits d = for_K mutex_unlock (stm_K bits) 0 d"

text \<open>
  The first loop of \<^verbatim>\<open>try_lock\<close> and of \<^verbatim>\<open>try_lock_until\<close>: it leaves with
  \<^verbatim>\<open>ret\<close>, the counter \<open>i\<close> and the table. The two functions differ in the attempt
  they make on each mutex only.
\<close>

function try_loop ::
  "(nat \<Rightarrow> dyn_lock \<Rightarrow> error + bool \<times> dyn_lock) \<Rightarrow> nat \<Rightarrow> nat \<Rightarrow> dyn_lock
     \<Rightarrow> error + bool \<times> nat \<times> dyn_lock"
where
  "try_loop attempt k i d =
     (if i < k
      then (case attempt i d of
              Inl e \<Rightarrow> Inl e
            | Inr (ok, d') \<Rightarrow>
                if \<not> ok then Inr (False, i, d') else try_loop attempt k (i + 1) d')
      else Inr (True, i, d))"
  by pat_completeness auto
termination
  by (relation "measure (\<lambda>(attempt, k, i, d). k - i)") auto

text \<open>
  The second loop, \<^verbatim>\<open>while (--i >= 0) { _dlock._locks[i].unlock(); }\<close>. The counter is
  a \<^verbatim>\<open>size_t\<close>: the decrement wraps around and the comparison is between unsigned
  values. The loop may fail to end, so its result is an option.
\<close>

partial_function (option) rollback :: "64 word \<Rightarrow> dyn_lock \<Rightarrow> (error + dyn_lock) option" where
  "rollback i d =
     (let i' = i - 1
      in if 0 \<le> i'
         then (case mutex_unlock (unat i') d of
                 Inl e \<Rightarrow> Some (Inl e)
               | Inr d' \<Rightarrow> rollback i' d')
         else Some (Inr d))"

definition stm_try_lock :: "nat \<Rightarrow> dyn_lock \<Rightarrow> (error + bool \<times> dyn_lock) option" where
  "stm_try_lock bits d =
     (case try_loop mutex_try_lock (stm_K bits) 0 d of
        Inl e \<Rightarrow> Some (Inl e)
      | Inr (ret, i, d') \<Rightarrow>
          if \<not> ret
          then (case rollback (of_nat i) d' of
                  None \<Rightarrow> None
                | Some (Inl e) \<Rightarrow> Some (Inl e)
                | Some (Inr d'') \<Rightarrow> Some (Inr (ret, d'')))
          else Some (Inr (ret, d')))"

definition stm_try_lock_until ::
  "(nat \<Rightarrow> bool) \<Rightarrow> nat \<Rightarrow> dyn_lock \<Rightarrow> (error + bool \<times> dyn_lock) option"
where
  "stm_try_lock_until intime bits d =
     (case try_loop (mutex_try_lock_until intime) (stm_K bits) 0 d of
        Inl e \<Rightarrow> Some (Inl e)
      | Inr (ret, i, d') \<Rightarrow>
          if \<not> ret
          then (case rollback (of_nat i) d' of
                  None \<Rightarrow> None
                | Some (Inl e) \<Rightarrow> Some (Inl e)
                | Some (Inr d'') \<Rightarrow> Some (Inr (ret, d'')))
          else Some (Inr (ret, d')))"

text \<open>\<^verbatim>\<open>try_lock_for\<close> turns the duration into a deadline and calls \<^verbatim>\<open>try_lock_until\<close>.\<close>

definition stm_try_lock_for ::
  "(nat \<Rightarrow> bool) \<Rightarrow> nat \<Rightarrow> dyn_lock \<Rightarrow> (error + bool \<times> dyn_lock) option"
where
  "stm_try_lock_for intime bits d = stm_try_lock_until intime bits d"





section \<open>Properties\<close>

declare for_K.simps [simp del] try_loop.simps [simp del]

subsection \<open>The subset chooser\<close>

lemma length_resize: "length (resize k xs) = k"
  by (simp add: resize_def)

lemma resize_take: "k \<le> length xs \<Longrightarrow> resize k xs = take k xs"
  by (simp add: resize_def)

lemma length_hash_choices: "length (hash_choices c sh k) = k"
  by (simp add: hash_choices_def Let_def length_resize)

lemma sorted_hash_choices: "sorted (hash_choices c sh k)"
  by (simp add: hash_choices_def Let_def)

text \<open>What a rearrangement of \<open>0, \<dots>, K - 1\<close> looks like.\<close>

lemma rearranges_array:
  assumes "rearranges sh (array_of_K c)"
  shows "distinct (sh (array_of_K c))" and "set (sh (array_of_K c)) = {0..<K c}"
    and "length (sh (array_of_K c)) = K c"
proof -
  have m: "mset (sh (array_of_K c)) = mset [0..<K c]"
    using assms by (simp add: rearranges_def array_of_K_def)
  show "distinct (sh (array_of_K c))"
    using mset_eq_imp_distinct_iff [OF m] by simp
  show "set (sh (array_of_K c)) = {0..<K c}"
    using mset_eq_setD [OF m] by simp
  show "length (sh (array_of_K c)) = K c"
    using mset_eq_length [OF m] by simp
qed

lemma hash_choices_take:
  assumes "rearranges sh (array_of_K c)" and "k \<le> K c"
  shows "hash_choices c sh k = sort (take k (sh (array_of_K c)))"
  using assms rearranges_array(3) [OF assms(1)]
  by (simp add: hash_choices_def Let_def resize_take)

lemma distinct_hash_choices:
  assumes "rearranges sh (array_of_K c)" and "k \<le> K c"
  shows "distinct (hash_choices c sh k)"
  using rearranges_array(1) [OF assms(1)]
  by (simp add: hash_choices_take [OF assms])

lemma set_hash_choices:
  assumes "rearranges sh (array_of_K c)" and "k \<le> K c"
  shows "set (hash_choices c sh k) \<subseteq> {0..<K c}"
proof -
  have "set (take k (sh (array_of_K c))) \<subseteq> set (sh (array_of_K c))"
    by (rule set_take_subset)
  then show ?thesis
    using rearranges_array(2) [OF assms(1)]
    by (simp add: hash_choices_take [OF assms])
qed

lemma card_hash_choices:
  assumes "rearranges sh (array_of_K c)" and "k \<le> K c"
  shows "card (set (hash_choices c sh k)) = k"
  using distinct_card [OF distinct_hash_choices [OF assms]]
  by (simp add: length_hash_choices)

text \<open>Two subsets of a pool of \<open>K\<close> indices whose sizes add up to more than \<open>K\<close> meet.\<close>

lemma quorum_intersect:
  assumes "rearranges sh1 (array_of_K c)" and "rearranges sh2 (array_of_K c)"
    and "a \<le> K c" and "b \<le> K c" and "K c < a + b"
  shows "set (hash_choices c sh1 a) \<inter> set (hash_choices c sh2 b) \<noteq> {}"
proof
  let ?A = "set (hash_choices c sh1 a)" and ?B = "set (hash_choices c sh2 b)"
  assume disj: "?A \<inter> ?B = {}"
  have sub: "?A \<union> ?B \<subseteq> {0..<K c}"
    using set_hash_choices [OF assms(1,3)] set_hash_choices [OF assms(2,4)] by blast
  have "card (?A \<union> ?B) = card ?A + card ?B"
    using disj by (simp add: card_Un_disjoint)
  also have "\<dots> = a + b"
    by (simp add: card_hash_choices [OF assms(1,3)] card_hash_choices [OF assms(2,4)])
  finally have "card (?A \<union> ?B) = a + b" .
  moreover have "card (?A \<union> ?B) \<le> card {0..<K c}"
    by (rule card_mono [OF _ sub]) simp
  ultimately show False using assms(5) by simp
qed





subsection \<open>Acquisition counters\<close>

lemma held_Nil: "held [] x = 0"
  by (simp add: held_def)

lemma held_append: "held (es @ fs) x = held es x + held fs x"
  by (simp add: held_def)

lemma held_acquisitions:
  "0 \<le> held (map (\<lambda>i. Lock (g i)) is) x" "0 \<le> held (map (\<lambda>i. LockShared (g i)) is) x"
  by (induction "is") (simp_all add: held_def)

lemma held_releases:
  "held (map (\<lambda>i. Unlock (g i)) is) x = - held (map (\<lambda>i. Lock (g i)) is) x"
  "held (map (\<lambda>i. UnlockShared (g i)) is) x = - held (map (\<lambda>i. LockShared (g i)) is) x"
  by (induction "is") (simp_all add: held_def)

lemma held_pair_prefix:
  assumes rel: "\<And>js. held (map r js) x = - held (map a js) x"
    and acq: "\<And>js. 0 \<le> held (map a js) x"
  shows "0 \<le> held (take n (map a tok @ map r tok)) x"
proof (cases "n \<le> length tok")
  case True
  then have "take n (map a tok @ map r tok) = map a (take n tok)"
    by (simp add: take_map)
  then show ?thesis using acq by simp
next
  case False
  define m where "m = n - length tok"
  have "take n (map a tok @ map r tok) = map a tok @ map r (take m tok)"
    using False by (simp add: m_def take_map)
  moreover have "held (map a tok) x = held (map a (take m tok)) x + held (map a (drop m tok)) x"
    using held_append [of "map a (take m tok)" "map a (drop m tok)" x]
    by (simp flip: map_append)
  ultimately have "held (take n (map a tok @ map r tok)) x = held (map a (drop m tok)) x"
    by (simp add: held_append rel)
  then show ?thesis using acq by simp
qed

lemma held_pair_total:
  assumes rel: "\<And>js. held (map r js) x = - held (map a js) x"
  shows "held (map a tok @ map r tok) x = 0"
  by (simp add: held_append rel)

lemma cycle_Exclusive:
  "cycle c (Exclusive, sh, key) =
     map (\<lambda>i. Lock (get_lock c i key)) (hash_choices c sh (W c)) @
     map (\<lambda>i. Unlock (get_lock c i key)) (hash_choices c sh (W c))"
  by (simp add: lock_def unlock_def Let_def)

lemma cycle_Shared:
  "cycle c (Shared, sh, key) =
     map (\<lambda>i. LockShared (get_lock c i key)) (hash_choices c sh (W c)) @
     map (\<lambda>i. UnlockShared (get_lock c i key)) (hash_choices c sh (W c))"
  by (simp add: lock_shared_def unlock_shared_def Let_def)

lemma held_cycle: "held (cycle c y) x = 0"
proof -
  obtain m sh key where y: "y = (m, sh, key)"
    by (cases y) auto
  show ?thesis
  proof (cases m)
    case Exclusive
    show ?thesis
      unfolding y Exclusive cycle_Exclusive
      by (rule held_pair_total) (rule held_releases)
  next
    case Shared
    show ?thesis
      unfolding y Shared cycle_Shared
      by (rule held_pair_total) (rule held_releases)
  qed
qed

lemma held_cycle_prefix: "0 \<le> held (take n (cycle c y)) x"
proof -
  obtain m sh key where y: "y = (m, sh, key)"
    by (cases y) auto
  show ?thesis
  proof (cases m)
    case Exclusive
    show ?thesis
      unfolding y Exclusive cycle_Exclusive
      by (rule held_pair_prefix) (rule held_releases held_acquisitions)+
  next
    case Shared
    show ?thesis
      unfolding y Shared cycle_Shared
      by (rule held_pair_prefix) (rule held_releases held_acquisitions)+
  qed
qed

lemma held_cycles: "held (cycles c ys) x = 0"
  by (induction ys) (simp_all add: cycles_def held_Nil held_append held_cycle)

lemma held_cycles_prefix: "0 \<le> held (take n (cycles c ys)) x"
proof (induction ys arbitrary: n)
  case Nil
  show ?case by (simp add: cycles_def held_Nil)
next
  case (Cons y ys)
  have "cycles c (y # ys) = cycle c y @ cycles c ys"
    by (simp add: cycles_def)
  then have "held (take n (cycles c (y # ys))) x
      = held (take n (cycle c y)) x + held (take (n - length (cycle c y)) (cycles c ys)) x"
    by (simp add: held_append)
  moreover have "0 \<le> held (take n (cycle c y)) x"
    by (rule held_cycle_prefix)
  moreover have "0 \<le> held (take (n - length (cycle c y)) (cycles c ys)) x"
    by (rule Cons.IH)
  ultimately show ?case by simp
qed

lemma held_unlock:
  "held (es @ unlock c key tok) x = held es x - int (count_list (map (\<lambda>i. get_lock c i key) tok) x)"
  "held (es @ unlock_shared c key tok) x = held es x - int (count_list (map (\<lambda>i. get_lock c i key) tok) x)"
  by (induction tok arbitrary: es) (simp_all add: held_def unlock_def unlock_shared_def)

subsection \<open>The loops of the single-resource lock\<close>

lemma for_K_lock:
  "k \<le> length (locks d) \<Longrightarrow>
   \<exists>d'. for_K mutex_lock k i d = Inr d' \<and> calls d' = calls d @ map Lock [i..<k] \<and>
        length (locks d') = length (locks d)"
proof (induction mutex_lock k i d rule: for_K.induct)
  case (1 k i d)
  show ?case
  proof (cases "i < k")
    case False
    then show ?thesis by (subst for_K.simps) simp
  next
    case True
    define d1 where "d1 = d\<lparr>locks := (locks d)[i := m_lock (locks d ! i)], calls := calls d @ [Lock i]\<rparr>"
    have step: "mutex_lock i d = Inr d1"
      using True "1.prems" by (simp add: mutex_lock_def at_index_def d1_def)
    have "k \<le> length (locks d1)"
      using "1.prems" by (simp add: d1_def)
    from "1.hyps" [OF True step this] obtain d' where
      "for_K mutex_lock k (i + 1) d1 = Inr d'"
      "calls d' = calls d1 @ map Lock [i + 1..<k]"
      "length (locks d') = length (locks d1)"
      by blast
    then show ?thesis
      using True step by (subst for_K.simps) (simp add: d1_def upt_conv_Cons)
  qed
qed

lemma stm_lock_calls:
  assumes "length (locks d) = stm_K bits"
  shows "\<exists>d'. stm_lock bits d = Inr d' \<and> calls d' = calls d @ map Lock [0..<stm_K bits]"
  using for_K_lock [of "stm_K bits" d 0] assms
  by (auto simp: stm_lock_def)

text \<open>
  Started at any index inside the table, the second loop of \<^verbatim>\<open>try_lock\<close> unlocks
  down to index \<open>0\<close>, wraps to \<open>2 ^ 64 - 1\<close> and leaves the array.
\<close>

lemma rollback_off_end:
  "unat i \<le> length (locks d) \<Longrightarrow> length (locks d) < 2 ^ 64 \<Longrightarrow>
   rollback i d = Some (Inl OutOfBounds)"
proof (induction "unat i" arbitrary: i d)
  case 0
  then have i: "i = 0" by (simp add: unat_eq_0)
  have "unat (- 1 :: 64 word) = 2 ^ 64 - 1"
    by (simp add: unsigned_minus_1_eq_mask mask_eq_exp_minus_1)
  then have "\<not> unat (- 1 :: 64 word) < length (locks d)"
    using "0.prems"(2) by linarith
  then show ?case
    by (subst rollback.simps) (simp add: i mutex_unlock_def at_index_def)
next
  case (Suc n)
  then have nz: "i \<noteq> 0" by auto
  have u: "unat (i - 1) = n"
    using Suc.hyps(2) nz by (simp add: unat_minus_one)
  define d1 where "d1 = d\<lparr>locks := (locks d)[n := m_unlock (locks d ! n)], calls := calls d @ [Unlock n]\<rparr>"
  have lt: "n < length (locks d)"
    using Suc.prems(1) Suc.hyps(2) by simp
  have step: "mutex_unlock (unat (i - 1)) d = Inr d1"
    using lt by (simp add: u mutex_unlock_def at_index_def d1_def)
  have "rollback (i - 1) d1 = Some (Inl OutOfBounds)"
    using lt Suc.prems(2) by (intro Suc.hyps(1)) (simp_all add: u d1_def)
  then show ?case
    by (subst rollback.simps) (simp add: step)
qed

lemma try_loop_fails:
  assumes att: "\<And>i d. i < length (locks d) \<Longrightarrow> ok i d \<Longrightarrow>
        \<exists>d'. attempt i d = Inr (True, d') \<and> length (locks d') = length (locks d) \<and>
             (\<forall>j. j \<noteq> i \<longrightarrow> ok j d' = ok j d)"
      and att_fail: "\<And>i d. i < length (locks d) \<Longrightarrow> \<not> ok i d \<Longrightarrow> attempt i d = Inr (False, d)"
  shows "k \<le> length (locks d) \<Longrightarrow> i \<le> j \<Longrightarrow> j < k \<Longrightarrow> \<not> ok j d \<Longrightarrow>
   \<exists>i' d'. try_loop attempt k i d = Inr (False, i', d') \<and> i' < k \<and>
           length (locks d') = length (locks d)"
proof (induction "j - i" arbitrary: i d)
  case 0
  then have ij: "i = j" by simp
  have "attempt j d = Inr (False, d)"
    using "0.prems" by (intro att_fail) simp_all
  then show ?case
    using "0.prems"(3) by (subst try_loop.simps) (simp add: ij)
next
  case (Suc n)
  have ik: "i < k" and il: "i < length (locks d)"
    using Suc.prems by simp_all
  show ?case
  proof (cases "ok i d")
    case False
    have "attempt i d = Inr (False, d)"
      using il False by (rule att_fail)
    then show ?thesis
      using ik by (subst try_loop.simps) simp
  next
    case True
    from att [OF il True] obtain d1 where
      step: "attempt i d = Inr (True, d1)" and len: "length (locks d1) = length (locks d)"
      and same: "\<forall>j. j \<noteq> i \<longrightarrow> ok j d1 = ok j d"
      by blast
    have ne: "j \<noteq> i" using True Suc.prems(4) by auto
    have "n = j - (i + 1)" using Suc.hyps(2) by simp
    moreover have "k \<le> length (locks d1)" using len Suc.prems(1) by simp
    moreover have "i + 1 \<le> j" using ne Suc.prems(2) by simp
    moreover have "\<not> ok j d1" using same ne Suc.prems(4) by simp
    ultimately have "\<exists>i' d'. try_loop attempt k (i + 1) d1 = Inr (False, i', d') \<and> i' < k \<and>
           length (locks d') = length (locks d1)"
      using Suc.prems(3) by (intro Suc.hyps(1))
    then show ?thesis
      using ik step len by (subst try_loop.simps) simp
  qed
qed

lemma try_lock_attempt:
  "i < length (locks d) \<Longrightarrow> free (locks d ! i) \<Longrightarrow>
     \<exists>d'. mutex_try_lock i d = Inr (True, d') \<and> length (locks d') = length (locks d) \<and>
          (\<forall>j. j \<noteq> i \<longrightarrow> free (locks d' ! j) = free (locks d ! j))"
  "i < length (locks d) \<Longrightarrow> \<not> free (locks d ! i) \<Longrightarrow> mutex_try_lock i d = Inr (False, d)"
  by (simp_all add: mutex_try_lock_def)

lemma try_lock_until_attempt:
  "i < length (locks d) \<Longrightarrow> intime i \<Longrightarrow>
     \<exists>d'. mutex_try_lock_until intime i d = Inr (True, d') \<and> length (locks d') = length (locks d) \<and>
          (\<forall>j. j \<noteq> i \<longrightarrow> intime j = intime j)"
  "i < length (locks d) \<Longrightarrow> \<not> intime i \<Longrightarrow> mutex_try_lock_until intime i d = Inr (False, d)"
  by (simp_all add: mutex_try_lock_until_def)

lemma rollback_after_failure:
  assumes "i' < k" and "k = length (locks d')" and "k < 2 ^ 64"
  shows "rollback (of_nat i') d' = Some (Inl OutOfBounds)"
proof -
  have "unat (of_nat i' :: 64 word) = i'"
    using assms by (simp add: unat_of_nat)
  then show ?thesis
    using assms by (intro rollback_off_end) simp_all
qed

lemma stm_K_less: "bits < 64 \<Longrightarrow> stm_K bits < 2 ^ 64"
  unfolding stm_K_def by (rule power_strict_increasing) simp_all

text \<open>When every mutex is free, \<^verbatim>\<open>try_lock\<close> takes all of them in order and returns true.\<close>

lemma try_loop_succeeds:
  "i \<le> k \<Longrightarrow> k \<le> length (locks d) \<Longrightarrow> \<forall>j. i \<le> j \<and> j < k \<longrightarrow> free (locks d ! j) \<Longrightarrow>
   \<exists>d'. try_loop mutex_try_lock k i d = Inr (True, k, d') \<and>
        calls d' = calls d @ map Lock [i..<k] \<and> length (locks d') = length (locks d)"
proof (induction "k - i" arbitrary: i d)
  case 0
  then show ?case by (subst try_loop.simps) simp
next
  case (Suc n)
  have ik: "i < k" using Suc.hyps(2) by simp
  define d1 where
    "d1 = d\<lparr>locks := (locks d)[i := m_lock (locks d ! i)], calls := calls d @ [Lock i]\<rparr>"
  have step: "mutex_try_lock i d = Inr (True, d1)"
    using ik Suc.prems by (simp add: mutex_try_lock_def d1_def)
  have "\<exists>d'. try_loop mutex_try_lock k (i + 1) d1 = Inr (True, k, d') \<and>
        calls d' = calls d1 @ map Lock [i + 1..<k] \<and> length (locks d') = length (locks d1)"
    using Suc.hyps(2) Suc.prems ik by (intro Suc.hyps(1)) (simp_all add: d1_def)
  then show ?case
    using ik step by (subst try_loop.simps) (auto simp: d1_def upt_conv_Cons)
qed

lemma stm_try_lock_succeeds:
  assumes "length (locks d) = stm_K bits" and "\<forall>j. j < stm_K bits \<longrightarrow> free (locks d ! j)"
  shows "\<exists>d'. stm_try_lock bits d = Some (Inr (True, d')) \<and>
              calls d' = calls d @ map Lock [0..<stm_K bits]"
proof -
  have "\<exists>d'. try_loop mutex_try_lock (stm_K bits) 0 d = Inr (True, stm_K bits, d') \<and>
        calls d' = calls d @ map Lock [0..<stm_K bits] \<and> length (locks d') = length (locks d)"
    using assms by (intro try_loop_succeeds) simp_all
  then show ?thesis
    by (auto simp: stm_try_lock_def)
qed



subsection \<open>The claims\<close>

text \<open>
  C1. The claim: in the general keyed variant, \<^verbatim>\<open>lock_shared(key)\<close> acquires a subset
  of size \<open>R\<close> of the key's \<open>K\<close> candidates and returns a token of exactly \<open>R\<close> elements.
  The source calls \<^verbatim>\<open>hash_choices(W)\<close> in \<^verbatim>\<open>lock_shared\<close>, although the class
  comment says that readers take \<open>R\<close> locks. With \<open>K = 4\<close>, \<open>R = 2\<close>, \<open>W = 3\<close> the
  reader's token has three elements and three shared locks are taken.
\<close>

theorem lock_shared_takes_W_not_R:
  "length (fst (lock_shared c sh key)) = W c \<and>
   length (snd (lock_shared c sh key)) = W c \<and>
   rearranges rev (array_of_K \<lparr>N = 16, K = 4, R = 2, W = 3, ih = of_nat, th = of_nat\<rparr>) \<and>
   lock_shared \<lparr>N = 16, K = 4, R = 2, W = 3, ih = of_nat, th = of_nat\<rparr> rev (5::nat)
     = ([1, 2, 3], [LockShared 4, LockShared 7, LockShared 6]) \<and>
   length (fst (lock_shared \<lparr>N = 16, K = 4, R = 2, W = 3, ih = of_nat, th = of_nat\<rparr> rev (5::nat)))
     \<noteq> R \<lparr>N = 16, K = 4, R = 2, W = 3, ih = of_nat, th = (of_nat :: nat \<Rightarrow> 64 word)\<rparr>"
proof -
  have "length (fst (lock_shared c sh key)) = W c" "length (snd (lock_shared c sh key)) = W c"
    by (simp_all add: lock_shared_def Let_def length_hash_choices)
  moreover have
    "lock_shared \<lparr>N = 16, K = 4, R = 2, W = 3, ih = of_nat, th = of_nat\<rparr> rev (5::nat)
       = ([1, 2, 3], [LockShared 4, LockShared 7, LockShared 6])"
    by (simp add: lock_shared_def hash_choices_def array_of_K_def resize_def
        get_lock_def h_def upt_rec)
  ultimately show ?thesis
    by (simp add: rearranges_def)
qed

text \<open>
  Against C2 as stated: with \<open>K = 2\<close>, \<open>R = 2\<close>, \<open>W = 1\<close> we have \<open>R + W > K\<close>, yet
  one writer may draw \<open>{0}\<close> and another \<open>{1}\<close>.
\<close>

theorem quorum_writers_counterexample:
  "rearranges id (array_of_K \<lparr>N = 16, K = 2, R = 2, W = 1, ih = of_nat, th = (of_nat :: nat \<Rightarrow> 64 word)\<rparr>) \<and>
   rearranges rev (array_of_K \<lparr>N = 16, K = 2, R = 2, W = 1, ih = of_nat, th = (of_nat :: nat \<Rightarrow> 64 word)\<rparr>) \<and>
   K \<lparr>N = 16, K = 2, R = 2, W = 1, ih = of_nat, th = (of_nat :: nat \<Rightarrow> 64 word)\<rparr>
     < R \<lparr>N = 16, K = 2, R = 2, W = 1, ih = of_nat, th = (of_nat :: nat \<Rightarrow> 64 word)\<rparr>
       + W \<lparr>N = 16, K = 2, R = 2, W = 1, ih = of_nat, th = (of_nat :: nat \<Rightarrow> 64 word)\<rparr> \<and>
   fst (lock \<lparr>N = 16, K = 2, R = 2, W = 1, ih = of_nat, th = of_nat\<rparr> id (5::nat)) = [0] \<and>
   fst (lock \<lparr>N = 16, K = 2, R = 2, W = 1, ih = of_nat, th = of_nat\<rparr> rev (5::nat)) = [1] \<and>
   set (fst (lock \<lparr>N = 16, K = 2, R = 2, W = 1, ih = of_nat, th = of_nat\<rparr> id (5::nat))) \<inter>
   set (fst (lock \<lparr>N = 16, K = 2, R = 2, W = 1, ih = of_nat, th = of_nat\<rparr> rev (5::nat))) = {}"
  by (simp add: rearranges_def lock_def hash_choices_def array_of_K_def resize_def upt_rec)

text \<open>
  C2, amended. For a configuration with \<open>R + W > K\<close> (and \<open>R \<le> K\<close>, \<open>W \<le> K\<close>, so that
  the chooser returns subsets of the candidates), every subset of size \<open>W\<close> and every
  subset of size \<open>R\<close> that \<^verbatim>\<open>hash_choices\<close> can return share an index. Two writers'
  tokens share an index when \<open>2 W > K\<close>.
\<close>

theorem quorum_intersection:
  assumes "rearranges sh1 (array_of_K c)" and "rearranges sh2 (array_of_K c)"
    and "R c \<le> K c" and "W c \<le> K c" and "K c < R c + W c"
  shows "set (hash_choices c sh1 (W c)) \<inter> set (hash_choices c sh2 (R c)) \<noteq> {} \<and>
         (K c < 2 * W c \<longrightarrow>
            set (fst (lock c sh1 key1)) \<inter> set (fst (lock c sh2 key2)) \<noteq> {})"
proof
  show "set (hash_choices c sh1 (W c)) \<inter> set (hash_choices c sh2 (R c)) \<noteq> {}"
    using assms by (intro quorum_intersect) simp_all
  show "K c < 2 * W c \<longrightarrow> set (fst (lock c sh1 key1)) \<inter> set (fst (lock c sh2 key2)) \<noteq> {}"
  proof
    assume "K c < 2 * W c"
    then have "set (hash_choices c sh1 (W c)) \<inter> set (hash_choices c sh2 (W c)) \<noteq> {}"
      using assms by (intro quorum_intersect) simp_all
    then show "set (fst (lock c sh1 key1)) \<inter> set (fst (lock c sh2 key2)) \<noteq> {}"
      by (simp add: lock_def Let_def)
  qed
qed

theorem quorum_intersection_witness:
  "rearranges id (array_of_K \<lparr>N = 16, K = 3, R = 2, W = 2, ih = of_nat, th = (of_nat :: nat \<Rightarrow> 64 word)\<rparr>) \<and>
   rearranges rev (array_of_K \<lparr>N = 16, K = 3, R = 2, W = 2, ih = of_nat, th = (of_nat :: nat \<Rightarrow> 64 word)\<rparr>) \<and>
   hash_choices \<lparr>N = 16, K = 3, R = 2, W = 2, ih = of_nat, th = (of_nat :: nat \<Rightarrow> 64 word)\<rparr> id 2 = [0, 1] \<and>
   hash_choices \<lparr>N = 16, K = 3, R = 2, W = 2, ih = of_nat, th = (of_nat :: nat \<Rightarrow> 64 word)\<rparr> rev 2 = [1, 2] \<and>
   set (hash_choices \<lparr>N = 16, K = 3, R = 2, W = 2, ih = of_nat, th = (of_nat :: nat \<Rightarrow> 64 word)\<rparr> id 2) \<inter>
   set (hash_choices \<lparr>N = 16, K = 3, R = 2, W = 2, ih = of_nat, th = (of_nat :: nat \<Rightarrow> 64 word)\<rparr> rev 2) \<noteq> {} \<and>
   set (fst (lock \<lparr>N = 16, K = 3, R = 2, W = 2, ih = of_nat, th = of_nat\<rparr> id (5::nat))) \<inter>
   set (fst (lock \<lparr>N = 16, K = 3, R = 2, W = 2, ih = of_nat, th = of_nat\<rparr> rev (6::nat))) \<noteq> {}"
proof -
  let ?c = "\<lparr>N = 16, K = 3, R = 2, W = 2, ih = of_nat, th = (of_nat :: nat \<Rightarrow> 64 word)\<rparr>"
  have r1: "rearranges id (array_of_K ?c)" and r2: "rearranges rev (array_of_K ?c)"
    by (simp_all add: rearranges_def)
  have e: "hash_choices ?c id 2 = [0, 1]" "hash_choices ?c rev 2 = [1, 2]"
    by (simp_all add: hash_choices_def array_of_K_def resize_def upt_rec)
  have "R ?c \<le> K ?c" "W ?c \<le> K ?c" "K ?c < R ?c + W ?c" "K ?c < 2 * W ?c"
    by simp_all
  with quorum_intersection [OF r1 r2, of 5 6] r1 r2 e show ?thesis
    by simp
qed

text \<open>
  C3. The claim: when \<^verbatim>\<open>try_lock\<close>, \<^verbatim>\<open>try_lock_until\<close> or \<^verbatim>\<open>try_lock_for\<close>
  fails at index \<open>i\<close>, it releases exactly the locks \<open>0, \<dots>, i - 1\<close> and returns false.
  The source does not do that: the counter of \<^verbatim>\<open>while (--i >= 0)\<close> is unsigned, the test
  always holds, and after index \<open>0\<close> the loop unlocks \<^verbatim>\<open>_locks[SIZE_MAX]\<close>. Whenever one
  attempt fails, the call leaves the array instead of returning false.
\<close>

theorem failed_try_lock_runs_off_table:
  assumes len: "length (locks d) = stm_K bits" and bits: "bits < 64" and j: "j < stm_K bits"
  shows "(\<not> free (locks d ! j) \<longrightarrow> stm_try_lock bits d = Some (Inl OutOfBounds)) \<and>
         (\<not> intime j \<longrightarrow> stm_try_lock_until intime bits d = Some (Inl OutOfBounds)
                        \<and> stm_try_lock_for intime bits d = Some (Inl OutOfBounds))"
proof (intro conjI impI)
  assume nf: "\<not> free (locks d ! j)"
  have "\<exists>i' d'. try_loop mutex_try_lock (stm_K bits) 0 d = Inr (False, i', d') \<and> i' < stm_K bits \<and>
           length (locks d') = length (locks d)"
    using len j nf
    by (intro try_loop_fails [where ok = "\<lambda>i d. free (locks d ! i)" and j = j] try_lock_attempt)
      simp_all
  then obtain i' d' where
    loop: "try_loop mutex_try_lock (stm_K bits) 0 d = Inr (False, i', d')"
    and i': "i' < stm_K bits" and len': "length (locks d') = length (locks d)"
    by blast
  have "rollback (of_nat i') d' = Some (Inl OutOfBounds)"
    using i' len len' stm_K_less [OF bits] by (intro rollback_after_failure) simp_all
  then show "stm_try_lock bits d = Some (Inl OutOfBounds)"
    by (simp add: stm_try_lock_def loop)
next
  assume nt: "\<not> intime j"
  have "\<exists>i' d'. try_loop (mutex_try_lock_until intime) (stm_K bits) 0 d = Inr (False, i', d') \<and>
           i' < stm_K bits \<and> length (locks d') = length (locks d)"
    using len j nt
    by (intro try_loop_fails [where ok = "\<lambda>i d. intime i" and j = j] try_lock_until_attempt)
      simp_all
  then obtain i' d' where
    loop: "try_loop (mutex_try_lock_until intime) (stm_K bits) 0 d = Inr (False, i', d')"
    and i': "i' < stm_K bits" and len': "length (locks d') = length (locks d)"
    by blast
  have "rollback (of_nat i') d' = Some (Inl OutOfBounds)"
    using i' len len' stm_K_less [OF bits] by (intro rollback_after_failure) simp_all
  then show u: "stm_try_lock_until intime bits d = Some (Inl OutOfBounds)"
    by (simp add: stm_try_lock_until_def loop)
  then show "stm_try_lock_for intime bits d = Some (Inl OutOfBounds)"
    by (simp add: stm_try_lock_for_def)
qed

theorem failed_try_lock_runs_off_table_witness:
  "length (locks \<lparr>locks = [\<lparr>excl = False, shared = 0\<rparr>, \<lparr>excl = False, shared = 1\<rparr>], calls = []\<rparr>) = stm_K 1 \<and>
   (1::nat) < 64 \<and> 1 < stm_K 1 \<and>
   \<not> free (locks \<lparr>locks = [\<lparr>excl = False, shared = 0\<rparr>, \<lparr>excl = False, shared = 1\<rparr>], calls = []\<rparr> ! 1) \<and>
   stm_try_lock 1 \<lparr>locks = [\<lparr>excl = False, shared = 0\<rparr>, \<lparr>excl = False, shared = 1\<rparr>], calls = []\<rparr>
     = Some (Inl OutOfBounds) \<and>
   stm_try_lock_until (\<lambda>i. i = 0) 1 \<lparr>locks = [\<lparr>excl = False, shared = 0\<rparr>, \<lparr>excl = False, shared = 1\<rparr>], calls = []\<rparr>
     = Some (Inl OutOfBounds) \<and>
   stm_try_lock_for (\<lambda>i. i = 0) 1 \<lparr>locks = [\<lparr>excl = False, shared = 0\<rparr>, \<lparr>excl = False, shared = 1\<rparr>], calls = []\<rparr>
     = Some (Inl OutOfBounds)"
  using failed_try_lock_runs_off_table [of
      "\<lparr>locks = [\<lparr>excl = False, shared = 0\<rparr>, \<lparr>excl = False, shared = 1\<rparr>], calls = []\<rparr>" 1 1 "\<lambda>i. i = 0"]
  by (simp add: stm_K_def free_def)

text \<open>
  Against C4 as stated: with the identity hash of a \<^verbatim>\<open>size_t\<close> and \<open>K = 2\<close>, the key
  with hash \<open>1\<close> has the slots \<open>1, 0\<close> in this order, the key with hash \<open>0\<close> has
  \<open>0, 1\<close>. Both variants of the keyed lock take them in the order of the candidate index.
\<close>

theorem physical_order_counterexample:
  "rearranges id (array_of_K \<lparr>N = 16, K = 2, R = 2, W = 2, ih = of_nat, th = (of_nat :: nat \<Rightarrow> 64 word)\<rparr>) \<and>
   map slot (snd (lock \<lparr>N = 16, K = 2, R = 2, W = 2, ih = of_nat, th = of_nat\<rparr> id (1::nat))) = [1, 0] \<and>
   map slot (snd (lock \<lparr>N = 16, K = 2, R = 2, W = 2, ih = of_nat, th = of_nat\<rparr> id (0::nat))) = [0, 1] \<and>
   \<not> sorted (map slot (snd (lock \<lparr>N = 16, K = 2, R = 2, W = 2, ih = of_nat, th = of_nat\<rparr> id (1::nat)))) \<and>
   \<not> sorted (map slot (snd (lock_shared \<lparr>N = 16, K = 2, R = 2, W = 2, ih = of_nat, th = of_nat\<rparr> id (1::nat)))) \<and>
   \<not> sorted (map slot (snd (lock_1K \<lparr>N = 16, K = 2, R = 1, W = 2, ih = of_nat, th = of_nat\<rparr> (1::nat))))"
  by (simp add: rearranges_def lock_def lock_1K_def lock_shared_def
      hash_choices_def array_of_K_def resize_def get_lock_def h_def upt_rec)

text \<open>
  C4, amended. Within one \<^verbatim>\<open>lock\<close> or \<^verbatim>\<open>lock_shared\<close> call the underlying locks are
  taken in ascending order of the candidate index \<open>i\<close>: the token is sorted and the calls
  follow it (the specialisation counts \<open>i\<close> from \<open>0\<close> to \<open>K - 1\<close>, its reader takes one
  lock). In the single-resource lock the candidate index is the index in the table, so
  \<^verbatim>\<open>lock()\<close> takes the slots \<open>0, \<dots>, K - 1\<close> in ascending order. In the keyed lock the
  slot of candidate \<open>i\<close> is \<^verbatim>\<open>h(i, key) % N\<close>.
\<close>

theorem acquisition_in_candidate_order:
  "sorted (fst (lock c sh key)) \<and>
   snd (lock c sh key) = map (\<lambda>i. Lock (get_lock c i key)) (fst (lock c sh key)) \<and>
   sorted (fst (lock_shared c sh key)) \<and>
   snd (lock_shared c sh key) = map (\<lambda>i. LockShared (get_lock c i key)) (fst (lock_shared c sh key)) \<and>
   snd (lock_1K c key) = map (\<lambda>i. Lock (get_lock c i key)) [0..<K c] \<and>
   snd (lock_shared_1K c r key) = [LockShared (get_lock c r key)] \<and>
   (length (locks d) = stm_K bits \<longrightarrow>
      (\<exists>d'. stm_lock bits d = Inr d' \<and> calls d' = calls d @ map Lock [0..<stm_K bits]))"
  using stm_lock_calls [of d bits]
  by (simp add: lock_def lock_shared_def lock_1K_def lock_shared_1K_def Let_def sorted_hash_choices)

theorem acquisition_in_candidate_order_witness:
  "length (locks \<lparr>locks = [\<lparr>excl = False, shared = 0\<rparr>, \<lparr>excl = False, shared = 1\<rparr>], calls = []\<rparr>) = stm_K 1 \<and>
   (\<exists>d'. stm_lock 1 \<lparr>locks = [\<lparr>excl = False, shared = 0\<rparr>, \<lparr>excl = False, shared = 1\<rparr>], calls = []\<rparr> = Inr d' \<and>
         calls d' = [Lock 0, Lock 1])"
  using acquisition_in_candidate_order [of
      "\<lparr>N = 16, K = 2, R = 2, W = 2, ih = of_nat, th = (of_nat :: nat \<Rightarrow> 64 word)\<rparr>" id 1 0
      "\<lparr>locks = [\<lparr>excl = False, shared = 0\<rparr>, \<lparr>excl = False, shared = 1\<rparr>], calls = []\<rparr>" 1]
  by (simp add: stm_K_def upt_rec)




text \<open>
  C6. \<^verbatim>\<open>unlock(key, token)\<close> and \<^verbatim>\<open>unlock_shared(key, token)\<close> release the slots
  \<^verbatim>\<open>h(i, key) % N\<close> of the indices \<open>i\<close> of the token and nothing else: the counter of
  slot \<open>x\<close> goes down by the number of indices of the token that map to \<open>x\<close>. After any
  run of lock/unlock and lock\_shared/unlock\_shared cycles, each with the token its
  acquisition returned, every counter is back at zero, and no counter is negative at
  any moment of the run.
\<close>

theorem unlock_releases_token:
  "unlock c key tok = map (\<lambda>i. Unlock (get_lock c i key)) tok \<and>
   unlock_shared c key tok = map (\<lambda>i. UnlockShared (get_lock c i key)) tok \<and>
   held (es @ unlock c key tok) x
     = held es x - int (count_list (map (\<lambda>i. get_lock c i key) tok) x) \<and>
   held (es @ unlock_shared c key tok) x
     = held es x - int (count_list (map (\<lambda>i. get_lock c i key) tok) x) \<and>
   held (cycles c ys) x = 0 \<and>
   0 \<le> held (take n (cycles c ys)) x"
  by (simp add: held_unlock held_cycles held_cycles_prefix) (simp add: unlock_def unlock_shared_def)

text \<open>
  Against C7 as stated: \<open>K = 2\<close>, \<open>R = 2\<close>, \<open>W = 3\<close> is a configuration with
  \<open>R + W > K\<close>; there \<^verbatim>\<open>resize(3)\<close> appends a zero to the two shuffled candidates, the
  token is \<open>[0, 0, 1]\<close> and the slot of candidate \<open>0\<close> is locked twice.
\<close>

theorem lock_token_padded_counterexample:
  "rearranges id (array_of_K \<lparr>N = 16, K = 2, R = 2, W = 3, ih = of_nat, th = (of_nat :: nat \<Rightarrow> 64 word)\<rparr>) \<and>
   K \<lparr>N = 16, K = 2, R = 2, W = 3, ih = of_nat, th = (of_nat :: nat \<Rightarrow> 64 word)\<rparr>
     < R \<lparr>N = 16, K = 2, R = 2, W = 3, ih = of_nat, th = (of_nat :: nat \<Rightarrow> 64 word)\<rparr>
       + W \<lparr>N = 16, K = 2, R = 2, W = 3, ih = of_nat, th = (of_nat :: nat \<Rightarrow> 64 word)\<rparr> \<and>
   lock \<lparr>N = 16, K = 2, R = 2, W = 3, ih = of_nat, th = of_nat\<rparr> id (5::nat)
     = ([0, 0, 1], [Lock 5, Lock 5, Lock 4]) \<and>
   \<not> sorted_wrt (<) (fst (lock \<lparr>N = 16, K = 2, R = 2, W = 3, ih = of_nat, th = of_nat\<rparr> id (5::nat))) \<and>
   \<not> distinct (fst (lock \<lparr>N = 16, K = 2, R = 2, W = 3, ih = of_nat, th = of_nat\<rparr> id (5::nat)))"
  by (simp add: rearranges_def lock_def hash_choices_def array_of_K_def resize_def
      get_lock_def h_def upt_rec)

text \<open>
  C7, amended. When \<open>W \<le> K\<close>, the token of \<^verbatim>\<open>lock(key)\<close> in the general template is
  strictly ascending, free of duplicates, has exactly \<open>W\<close> elements and lies in
  \<open>{0, \<dots>, K - 1}\<close>, for every shuffle that rearranges its input.
\<close>

theorem lock_token_strictly_ascending:
  assumes "rearranges sh (array_of_K c)" and "W c \<le> K c"
  shows "sorted_wrt (<) (fst (lock c sh key)) \<and>
         distinct (fst (lock c sh key)) \<and>
         length (fst (lock c sh key)) = W c \<and>
         set (fst (lock c sh key)) \<subseteq> {0..<K c}"
proof -
  have tok: "fst (lock c sh key) = hash_choices c sh (W c)"
    by (simp add: lock_def Let_def)
  have "sorted (hash_choices c sh (W c))"
    by (rule sorted_hash_choices)
  moreover have "distinct (hash_choices c sh (W c))"
    using assms by (rule distinct_hash_choices)
  moreover have "set (hash_choices c sh (W c)) \<subseteq> {0..<K c}"
    using assms by (rule set_hash_choices)
  ultimately show ?thesis
    by (simp add: tok strict_sorted_iff length_hash_choices)
qed

theorem lock_token_strictly_ascending_witness:
  "rearranges rev (array_of_K \<lparr>N = 16, K = 4, R = 2, W = 3, ih = of_nat, th = (of_nat :: nat \<Rightarrow> 64 word)\<rparr>) \<and>
   (3::nat) \<le> 4 \<and>
   fst (lock \<lparr>N = 16, K = 4, R = 2, W = 3, ih = of_nat, th = of_nat\<rparr> rev (5::nat)) = [1, 2, 3] \<and>
   sorted_wrt (<) (fst (lock \<lparr>N = 16, K = 4, R = 2, W = 3, ih = of_nat, th = of_nat\<rparr> rev (5::nat))) \<and>
   distinct (fst (lock \<lparr>N = 16, K = 4, R = 2, W = 3, ih = of_nat, th = of_nat\<rparr> rev (5::nat))) \<and>
   length (fst (lock \<lparr>N = 16, K = 4, R = 2, W = 3, ih = of_nat, th = of_nat\<rparr> rev (5::nat))) = 3 \<and>
   set (fst (lock \<lparr>N = 16, K = 4, R = 2, W = 3, ih = of_nat, th = of_nat\<rparr> rev (5::nat))) \<subseteq> {0..<4}"
proof -
  let ?c = "\<lparr>N = 16, K = 4, R = 2, W = 3, ih = of_nat, th = (of_nat :: nat \<Rightarrow> 64 word)\<rparr>"
  have r: "rearranges rev (array_of_K ?c)"
    by (simp add: rearranges_def)
  have e: "fst (lock ?c rev 5) = [1, 2, 3]"
    by (simp add: lock_def hash_choices_def array_of_K_def resize_def upt_rec)
  have "W ?c \<le> K ?c" by simp
  from lock_token_strictly_ascending [OF r this, of 5] r e show ?thesis
    by simp
qed

text \<open>
  C8. The slot of seed \<open>i\<close> and a key is \<^verbatim>\<open>(ih(i) ^ th(key)) % N\<close>, a function of its
  arguments; it is a valid index of the table. The seeds are \<open>0, \<dots>, K - 1\<close> for every
  key, and the token drawn for a key does not depend on the key.
\<close>

theorem get_lock_valid_slot:
  assumes "0 < N c"
  shows "get_lock c i key < N c \<and>
         get_lock c i key = unat (ih c i XOR th c key) mod N c \<and>
         snd (lock_1K c key) = map (\<lambda>i. Lock (get_lock c i key)) [0..<K c] \<and>
         fst (lock c sh key) = fst (lock c sh key') \<and>
         fst (lock_shared c sh key) = fst (lock_shared c sh key')"
  using assms
  by (simp add: get_lock_def h_def lock_1K_def lock_def lock_shared_def Let_def)

theorem get_lock_valid_slot_witness:
  "(0::nat) < 16 \<and>
   get_lock \<lparr>N = 16, K = 4, R = 2, W = 3, ih = of_nat, th = of_nat\<rparr> 3 (21::nat) = 6 \<and>
   get_lock \<lparr>N = 16, K = 4, R = 2, W = 3, ih = of_nat, th = of_nat\<rparr> 3 (21::nat) < 16"
  using get_lock_valid_slot [of "\<lparr>N = 16, K = 4, R = 2, W = 3, ih = of_nat, th = of_nat\<rparr>" 3 "21::nat"]
  by (simp add: get_lock_def h_def)



text \<open>
  C10. In the specialisation the writer's \<^verbatim>\<open>lock(key)\<close> returns the token \<open>0\<close> for
  every key, and \<^verbatim>\<open>unlock(key, token)\<close> releases the \<open>K\<close> slots of the key whatever
  the token is.
\<close>

theorem lock_1K_token_ignored:
  "fst (lock_1K c key) = 0 \<and>
   unlock_1K c key tok1 = unlock_1K c key tok2 \<and>
   unlock_1K c key tok1 = map (\<lambda>i. Unlock (get_lock c i key)) [0..<K c] \<and>
   length (unlock_1K c key tok1) = K c"
  by (simp add: lock_1K_def unlock_1K_def)

end
